theory Spec2Isabelle
  imports Main "HOL-Library.Multiset"
begin

section \<open>The grouped entries of the package dsl\<close>

text \<open>
  The methods of \<^verbatim>\<open>GroupedEntries\<close> in \<^verbatim>\<open>dsl/grouped_entries.go\<close>.
  \<^verbatim>\<open>GroupedEntries\<close> keeps two parallel slices, \<^verbatim>\<open>Keys\<close> and \<^verbatim>\<open>Entries\<close>, and an
  unexported map \<^verbatim>\<open>lookup\<close> from a key to its position. Keys are \<^verbatim>\<open>interface{}\<close> values
  used as Go map keys: the type \<open>'k\<close> stands for the hashable ones, compared with \<open>=\<close>.
  An entry is a value of the type \<open>'e\<close>; \<^verbatim>\<open>Entries\<close> is a slice of them, a list here.
  A \<^verbatim>\<open>Matcher\<close> is used through its \<^verbatim>\<open>Match\<close> method only and is a predicate on entries.

  A Go run-time panic is the left summand of every result. The only panic the methods
  can raise on a record of this type is an index out of range: \<^verbatim>\<open>lookup\<close> is unexported
  and made by \<^verbatim>\<open>NewGroupedEntries\<close>, so it is never the nil map, while \<^verbatim>\<open>Keys\<close> and
  \<^verbatim>\<open>Entries\<close> are exported and a record may hold any two slices.
\<close>

datatype panic = IndexOutOfRange

record ('k, 'e) GroupedEntries =
  Keys :: "'k list"
  Entries :: "'e list list"
  lookup :: "'k \<rightharpoonup> nat"

definition NewGroupedEntries :: "('k, 'e) GroupedEntries" where
  "NewGroupedEntries = \<lparr>Keys = [], Entries = [], lookup = Map.empty\<rparr>"

text \<open>
  \<^verbatim>\<open>AppendEntries\<close> writes through its pointer receiver: the function returns the receiver
  after the call. Reading \<^verbatim>\<open>g.lookup[key]\<close> for a missing key gives the zero value 0 and
  indexing \<^verbatim>\<open>g.Entries\<close> beyond its length panics.
\<close>

definition AppendEntries ::
  "'k \<Rightarrow> 'e list \<Rightarrow> ('k, 'e) GroupedEntries \<Rightarrow> panic + ('k, 'e) GroupedEntries" where
  "AppendEntries key entries g =
     (let g1 = (case lookup g key of
                  None \<Rightarrow> g\<lparr>Keys := Keys g @ [key],
                             Entries := Entries g @ [[]],
                             lookup := (lookup g)(key \<mapsto> length (Keys g @ [key]) - 1)\<rparr>
                | Some _ \<Rightarrow> g);
          i = (case lookup g1 key of None \<Rightarrow> 0 | Some j \<Rightarrow> j)
      in if i < length (Entries g1)
         then Inr (g1\<lparr>Entries := (Entries g1)[i := Entries g1 ! i @ entries]\<rparr>)
         else Inl IndexOutOfRange)"

definition Append ::
  "'k \<Rightarrow> 'e \<Rightarrow> ('k, 'e) GroupedEntries \<Rightarrow> panic + ('k, 'e) GroupedEntries" where
  "Append key entry g = AppendEntries key [entry] g"

text \<open>\<^verbatim>\<open>Lookup\<close> returns \<^verbatim>\<open>(nil, false)\<close> for a missing key; the nil slice is the empty list.\<close>

definition Lookup :: "'k \<Rightarrow> ('k, 'e) GroupedEntries \<Rightarrow> panic + ('e list \<times> bool)" where
  "Lookup key g =
     (case lookup g key of
        None \<Rightarrow> Inr ([], False)
      | Some index \<Rightarrow>
          if index < length (Entries g) then Inr (Entries g ! index, True)
          else Inl IndexOutOfRange)"

text \<open>
  \<^verbatim>\<open>EachGroup\<close> runs \<^verbatim>\<open>for i := 0; i < len(g.Keys); i++\<close> and calls the visitor on
  \<^verbatim>\<open>g.Keys[i], g.Entries[i]\<close>. The visitor is a Go closure: it works on the variables it
  captured, the state \<open>'s\<close> threaded through the calls, and returns an \<^verbatim>\<open>error\<close>
  (\<open>None\<close> is \<^verbatim>\<open>nil\<close>); it may panic as well. The receiver is only read by the loop, and
  the visitors do not write to it. The loop is the recursion over the two slices from
  position \<open>i\<close> on: when \<^verbatim>\<open>g.Entries\<close> ends before \<^verbatim>\<open>g.Keys\<close> the read \<^verbatim>\<open>g.Entries[i]\<close>
  panics.
\<close>

fun EachGroup_loop ::
  "('k \<Rightarrow> 'e list \<Rightarrow> 's \<Rightarrow> panic + ('x option \<times> 's)) \<Rightarrow> 'k list \<Rightarrow> 'e list list \<Rightarrow> 's
     \<Rightarrow> panic + ('x option \<times> 's)" where
  "EachGroup_loop f [] ess s = Inr (None, s)"
| "EachGroup_loop f (k # ks) [] s = Inl IndexOutOfRange"
| "EachGroup_loop f (k # ks) (es # ess) s =
     (case f k es s of
        Inl p \<Rightarrow> Inl p
      | Inr (Some err, s') \<Rightarrow> Inr (Some err, s')
      | Inr (None, s') \<Rightarrow> EachGroup_loop f ks ess s')"

definition EachGroup ::
  "('k \<Rightarrow> 'e list \<Rightarrow> 's \<Rightarrow> panic + ('x option \<times> 's)) \<Rightarrow> ('k, 'e) GroupedEntries \<Rightarrow> 's
     \<Rightarrow> panic + ('x option \<times> 's)" where
  "EachGroup f g s = EachGroup_loop f (Keys g) (Entries g) s"

text \<open>
  Modelled from the spec: \<^verbatim>\<open>Entries.Filter\<close> and \<^verbatim>\<open>Entries.First\<close> are methods of the
  \<^verbatim>\<open>Entries\<close> type, which is declared in another file of the package. The spec gives them
  as \<^verbatim>\<open>Filter(matcher) -> Entries\<close>, the sub-sequence of the entries satisfying
  the matcher, and \<^verbatim>\<open>First(matcher) -> (Entry, found)\<close>, the earliest matching entry in
  sequence order. \<open>None\<close> is the result \<^verbatim>\<open>(Entry{}, false)\<close>.
\<close>

definition Filter_Entries :: "('e \<Rightarrow> bool) \<Rightarrow> 'e list \<Rightarrow> 'e list" where
  "Filter_Entries matcher entries = filter matcher entries"

definition First_Entries :: "('e \<Rightarrow> bool) \<Rightarrow> 'e list \<Rightarrow> 'e option" where
  "First_Entries matcher entries = List.find matcher entries"

text \<open>
  \<^verbatim>\<open>Filter\<close> builds a new map in the variable \<^verbatim>\<open>filteredGroups\<close>, the state of its visitor
  \<open>Filter_visit\<close>, which always returns \<^verbatim>\<open>nil\<close>. No statement of \<^verbatim>\<open>Filter\<close>, of
  \<^verbatim>\<open>EachGroup\<close> or of the visitor assigns to a field of the receiver. The function
  returns the receiver after the call together with the new map.
\<close>

definition Filter_visit ::
  "('e \<Rightarrow> bool) \<Rightarrow> 'k \<Rightarrow> 'e list \<Rightarrow> ('k, 'e) GroupedEntries
     \<Rightarrow> panic + (unit option \<times> ('k, 'e) GroupedEntries)" where
  "Filter_visit matcher key entries filteredGroups =
     (let filtered = Filter_Entries matcher entries in
      if length filtered > 0
      then (case AppendEntries key filtered filteredGroups of
              Inl p \<Rightarrow> Inl p
            | Inr filteredGroups' \<Rightarrow> Inr (None, filteredGroups'))
      else Inr (None, filteredGroups))"

definition Filter ::
  "('e \<Rightarrow> bool) \<Rightarrow> ('k, 'e) GroupedEntries
     \<Rightarrow> panic + (('k, 'e) GroupedEntries \<times> ('k, 'e) GroupedEntries)" where
  "Filter matcher g =
     (case EachGroup (Filter_visit matcher) g NewGroupedEntries of
        Inl p \<Rightarrow> Inl p
      | Inr (_, filteredGroups) \<Rightarrow> Inr (g, filteredGroups))"

text \<open>
  \<^verbatim>\<open>first\<close> ranges over \<^verbatim>\<open>g.Entries\<close> and collects the first match of each group that has
  one, sorts the collected entries with \<^verbatim>\<open>sort.Sort\<close> and returns element 0.
  \<^verbatim>\<open>sort.Sort\<close> belongs to the Go standard library and orders the slice in place by the
  \<^verbatim>\<open>Less\<close> method of \<^verbatim>\<open>Entries\<close>, which is declared in another file: the sort is the
  parameter \<open>srt\<close>, and \<open>sort_contract\<close> below states what the library promises of it.
  Sorting in place keeps the length of the slice, so that \<^verbatim>\<open>firsts[0]\<close> exists; for a
  parameter that returns the empty list the read of element 0 is the panic.
\<close>

primrec collect_firsts :: "('e \<Rightarrow> bool) \<Rightarrow> 'e list list \<Rightarrow> 'e list \<Rightarrow> 'e list" where
  "collect_firsts matcher [] firsts = firsts"
| "collect_firsts matcher (entries # rest) firsts =
     (case First_Entries matcher entries of
        Some fst' \<Rightarrow> collect_firsts matcher rest (firsts @ [fst'])
      | None \<Rightarrow> collect_firsts matcher rest firsts)"

definition first ::
  "('e list \<Rightarrow> 'e list) \<Rightarrow> ('e \<Rightarrow> bool) \<Rightarrow> ('k, 'e) GroupedEntries \<Rightarrow> panic + 'e option" where
  "first srt matcher g =
     (let firsts = collect_firsts matcher (Entries g) [] in
      if length firsts = 0 then Inr None
      else (case srt firsts of
              [] \<Rightarrow> Inl IndexOutOfRange
            | x # _ \<Rightarrow> Inr (Some x)))"

text \<open>
  The contract of \<^verbatim>\<open>sort.Sort\<close>: the result is a rearrangement of the input in which no
  element is \<^verbatim>\<open>Less\<close> than one before it. The sort need not be stable.
\<close>

definition sort_contract :: "('e \<Rightarrow> 'e \<Rightarrow> bool) \<Rightarrow> ('e list \<Rightarrow> 'e list) \<Rightarrow> bool" where
  "sort_contract Less srt \<longleftrightarrow>
     (\<forall>xs. mset (srt xs) = mset xs \<and> sorted_wrt (\<lambda>a b. \<not> Less b a) (srt xs))"

text \<open>
  A \<^verbatim>\<open>TimelineDescription\<close> is a slice of descriptors of which the code reads the field
  \<^verbatim>\<open>Matcher\<close>; a \<^verbatim>\<open>Timeline\<close> is a struct of which the code writes the field \<^verbatim>\<open>Annotation\<close>.
  Their other fields are the extension part of the records. \<^verbatim>\<open>Entries.ConstructTimeline\<close>
  is declared in another file and is the parameter \<open>ctl\<close>.

  \<^verbatim>\<open>ConstructTimelines\<close> returns a pair \<^verbatim>\<open>(Timelines, error)\<close>. Its only error is made by
  \<^verbatim>\<open>fmt.Errorf\<close> from \<^verbatim>\<open>description[0]\<close>. Reading \<^verbatim>\<open>description[0]\<close> of an empty
  description panics. The \<^verbatim>\<open>fmt.Printf\<close> of the number of groups goes to the standard
  output and is left out.
\<close>

record 'e Descriptor =
  Matcher :: "'e \<Rightarrow> bool"

record 'k Timeline =
  Annotation :: 'k

datatype 'd error = AnchorNotFound 'd

definition ConstructTimelines_visit ::
  "('e list \<Rightarrow> ('e, 'z) Descriptor_scheme list \<Rightarrow> 'e \<Rightarrow> ('k, 't) Timeline_scheme)
     \<Rightarrow> ('e, 'z) Descriptor_scheme list \<Rightarrow> 'e \<Rightarrow> 'k \<Rightarrow> 'e list
     \<Rightarrow> ('k, 't) Timeline_scheme list
     \<Rightarrow> panic + (unit option \<times> ('k, 't) Timeline_scheme list)" where
  "ConstructTimelines_visit ctl description firstEntry key entries timelines =
     (let timeline = ctl entries description firstEntry in
      Inr (None, timelines @ [timeline\<lparr>Annotation := key\<rparr>]))"

definition ConstructTimelines ::
  "('e list \<Rightarrow> 'e list)
     \<Rightarrow> ('e list \<Rightarrow> ('e, 'z) Descriptor_scheme list \<Rightarrow> 'e \<Rightarrow> ('k, 't) Timeline_scheme)
     \<Rightarrow> ('e, 'z) Descriptor_scheme list \<Rightarrow> ('k, 'e) GroupedEntries
     \<Rightarrow> panic + (('k, 't) Timeline_scheme list \<times> ('e, 'z) Descriptor_scheme error option)" where
  "ConstructTimelines srt ctl description g =
     (case description of
        [] \<Rightarrow> Inl IndexOutOfRange
      | d0 # _ \<Rightarrow>
          (case first srt (Matcher d0) g of
             Inl p \<Rightarrow> Inl p
           | Inr None \<Rightarrow> Inr ([], Some (AnchorNotFound d0))
           | Inr (Some firstEntry) \<Rightarrow>
               (case EachGroup (ConstructTimelines_visit ctl description firstEntry) g [] of
                  Inl p \<Rightarrow> Inl p
                | Inr (_, timelines) \<Rightarrow> Inr (timelines, None))))"

text \<open>
  \<^verbatim>\<open>WriteLagerFormatTo\<close> writes to an \<^verbatim>\<open>io.Writer\<close>. The writer is a state \<open>'w\<close> with its
  \<^verbatim>\<open>Write\<close> method \<open>write\<close>, which returns an error or \<^verbatim>\<open>nil\<close> and the writer after the
  call. \<open>fmt_key\<close> is the \<^verbatim>\<open>%s\<close> formatting of a key, and \<open>write_entries\<close> is
  \<^verbatim>\<open>Entries.WriteLagerFormatTo\<close>, declared in another file. The result of \<^verbatim>\<open>fmt.Fprintf\<close>
  is dropped, the visitor returns what \<^verbatim>\<open>entries.WriteLagerFormatTo\<close> returns, the result
  of \<^verbatim>\<open>EachGroup\<close> is dropped and the method ends with \<^verbatim>\<open>return nil\<close>.
\<close>

definition WriteLagerFormatTo_visit ::
  "('k \<Rightarrow> string) \<Rightarrow> (string \<Rightarrow> 'w \<Rightarrow> 'x option \<times> 'w) \<Rightarrow> ('e list \<Rightarrow> 'w \<Rightarrow> 'x option \<times> 'w)
     \<Rightarrow> 'k \<Rightarrow> 'e list \<Rightarrow> 'w \<Rightarrow> panic + ('x option \<times> 'w)" where
  "WriteLagerFormatTo_visit fmt_key write write_entries key entries w =
     (case write (fmt_key key @ [CHR 0x0A]) w of
        (_, w') \<Rightarrow> Inr (write_entries entries w'))"

definition WriteLagerFormatTo ::
  "('k \<Rightarrow> string) \<Rightarrow> (string \<Rightarrow> 'w \<Rightarrow> 'x option \<times> 'w) \<Rightarrow> ('e list \<Rightarrow> 'w \<Rightarrow> 'x option \<times> 'w)
     \<Rightarrow> ('k, 'e) GroupedEntries \<Rightarrow> 'w \<Rightarrow> panic + ('x option \<times> 'w)" where
  "WriteLagerFormatTo fmt_key write write_entries g w =
     (case EachGroup (WriteLagerFormatTo_visit fmt_key write write_entries) g w of
        Inl p \<Rightarrow> Inl p
      | Inr (_, w') \<Rightarrow> Inr (None, w'))"

section \<open>Sequences of calls, the structural invariant, grouping\<close>

text \<open>
  A program that fills a map is a sequence of \<^verbatim>\<open>Append\<close> and \<^verbatim>\<open>AppendEntries\<close> calls on
  one receiver; \<open>run_calls\<close> performs them in order and stops at a panic.
\<close>

datatype ('k, 'e) call = Call_Append 'k 'e | Call_AppendEntries 'k "'e list"

fun call_key :: "('k, 'e) call \<Rightarrow> 'k" where
  "call_key (Call_Append key entry) = key"
| "call_key (Call_AppendEntries key entries) = key"

fun call_entries :: "('k, 'e) call \<Rightarrow> 'e list" where
  "call_entries (Call_Append key entry) = [entry]"
| "call_entries (Call_AppendEntries key entries) = entries"

fun apply_call :: "('k, 'e) call \<Rightarrow> ('k, 'e) GroupedEntries \<Rightarrow> panic + ('k, 'e) GroupedEntries" where
  "apply_call (Call_Append key entry) g = Append key entry g"
| "apply_call (Call_AppendEntries key entries) g = AppendEntries key entries g"

fun run_calls :: "('k, 'e) call list \<Rightarrow> ('k, 'e) GroupedEntries \<Rightarrow> panic + ('k, 'e) GroupedEntries" where
  "run_calls [] g = Inr g"
| "run_calls (c # cs) g =
     (case apply_call c g of Inl p \<Rightarrow> Inl p | Inr g' \<Rightarrow> run_calls cs g')"

text \<open>
  The keys of a sequence in the order of their first occurrence, each once, and the
  entries that a sequence of calls appends under one key, in call order.
\<close>

fun first_seen :: "'a list \<Rightarrow> 'a list" where
  "first_seen [] = []"
| "first_seen (x # xs) = x # filter (\<lambda>y. y \<noteq> x) (first_seen xs)"

definition appended_under :: "'k \<Rightarrow> ('k, 'e) call list \<Rightarrow> 'e list" where
  "appended_under key cs = concat (map call_entries (filter (\<lambda>c. call_key c = key) cs))"

text \<open>
  The structural invariant of the data model: the two slices have the same length, no
  key occurs twice, and \<^verbatim>\<open>lookup\<close> holds exactly the keys of \<^verbatim>\<open>Keys\<close>, each with its
  position.
\<close>

definition invariant :: "('k, 'e) GroupedEntries \<Rightarrow> bool" where
  "invariant g \<longleftrightarrow>
     length (Keys g) = length (Entries g) \<and> distinct (Keys g) \<and>
     (\<forall>k i. lookup g k = Some i \<longleftrightarrow> i < length (Keys g) \<and> Keys g ! i = k)"

text \<open>The maps a program can build from \<^verbatim>\<open>NewGroupedEntries\<close> with the three operations.\<close>

inductive reachable :: "('k, 'e) GroupedEntries \<Rightarrow> bool" where
  reachable_New: "reachable NewGroupedEntries"
| reachable_Append: "reachable g \<Longrightarrow> Append key entry g = Inr g' \<Longrightarrow> reachable g'"
| reachable_AppendEntries: "reachable g \<Longrightarrow> AppendEntries key entries g = Inr g' \<Longrightarrow> reachable g'"
| reachable_Filter: "reachable g \<Longrightarrow> Filter matcher g = Inr (g0, g') \<Longrightarrow> reachable g'"

text \<open>
  Modelled from the spec: \<^verbatim>\<open>Entries.GroupBy\<close> is declared in another file of the package.
  The spec groups a flat sequence by a derived key into a map, and the comment of the
  \<^verbatim>\<open>GroupedEntries\<close> type says that the first key of the map is the first key that
  \<^verbatim>\<open>GroupBy\<close> detected: every entry, in sequence order, is appended under its key.
\<close>

primrec GroupBy_loop ::
  "('e \<Rightarrow> 'k) \<Rightarrow> 'e list \<Rightarrow> ('k, 'e) GroupedEntries \<Rightarrow> panic + ('k, 'e) GroupedEntries" where
  "GroupBy_loop getter [] g = Inr g"
| "GroupBy_loop getter (entry # rest) g =
     (case Append (getter entry) entry g of
        Inl p \<Rightarrow> Inl p
      | Inr g' \<Rightarrow> GroupBy_loop getter rest g')"

definition GroupBy :: "('e \<Rightarrow> 'k) \<Rightarrow> 'e list \<Rightarrow> panic + ('k, 'e) GroupedEntries" where
  "GroupBy getter entries = GroupBy_loop getter entries NewGroupedEntries"

text \<open>Grouping, then filtering the map when grouping did not panic.\<close>

definition GroupBy_then_Filter ::
  "('e \<Rightarrow> 'k) \<Rightarrow> ('e \<Rightarrow> bool) \<Rightarrow> 'e list \<Rightarrow> panic + ('k, 'e) GroupedEntries" where
  "GroupBy_then_Filter getter matcher entries =
     (case GroupBy getter entries of
        Inl p \<Rightarrow> Inl p
      | Inr g \<Rightarrow> (case Filter matcher g of Inl p \<Rightarrow> Inl p | Inr (_, r) \<Rightarrow> Inr r))"

text \<open>
  A visitor that keeps a log: \<open>logged f\<close> behaves as the visitor \<open>f\<close>, which does not
  panic, and records every invocation with its key, its entries and the error it
  returned.
\<close>

definition logged ::
  "('k \<Rightarrow> 'e list \<Rightarrow> 's \<Rightarrow> 'x option \<times> 's) \<Rightarrow> 'k \<Rightarrow> 'e list
     \<Rightarrow> 's \<times> ('k \<times> 'e list \<times> 'x option) list
     \<Rightarrow> panic + ('x option \<times> 's \<times> ('k \<times> 'e list \<times> 'x option) list)" where
  "logged f key entries st =
     (case st of (s, log) \<Rightarrow>
        (case f key entries s of (r, s') \<Rightarrow> Inr (r, s', log @ [(key, entries, r)])))"

text \<open>
  A writer that rejects every \<^verbatim>\<open>Write\<close> and keeps the list of the writes that were
  attempted, and a formatter of entries that are lines of text already: it writes them
  in order and returns the first error of the writer.
\<close>

datatype write_error = WriteRejected

definition rejecting_write :: "string \<Rightarrow> string list \<Rightarrow> write_error option \<times> string list" where
  "rejecting_write chunk attempts = (Some WriteRejected, attempts @ [chunk])"

fun write_lines ::
  "(string \<Rightarrow> 'w \<Rightarrow> 'x option \<times> 'w) \<Rightarrow> string list \<Rightarrow> 'w \<Rightarrow> 'x option \<times> 'w" where
  "write_lines write [] w = (None, w)"
| "write_lines write (line # rest) w =
     (case write line w of
        (Some err, w') \<Rightarrow> (Some err, w')
      | (None, w') \<Rightarrow> write_lines write rest w')"

section \<open>Appending under the invariant\<close>

lemma invariant_lookup_None:
  "invariant g \<Longrightarrow> key \<notin> set (Keys g) \<Longrightarrow> lookup g key = None"
  unfolding invariant_def by (metis nth_mem option.exhaust)

lemma invariant_lookup_Some:
  "invariant g \<Longrightarrow> key \<in> set (Keys g) \<Longrightarrow>
     \<exists>i. lookup g key = Some i \<and> i < length (Keys g) \<and> Keys g ! i = key"
  unfolding invariant_def by (metis in_set_conv_nth)

lemma AppendEntries_new:
  assumes "invariant g" "key \<notin> set (Keys g)"
  shows "AppendEntries key es g =
    Inr \<lparr>Keys = Keys g @ [key], Entries = Entries g @ [es],
         lookup = (lookup g)(key \<mapsto> length (Keys g))\<rparr>"
proof -
  have "lookup g key = None"
    using assms by (rule invariant_lookup_None)
  moreover have "length (Keys g) = length (Entries g)"
    using assms(1) by (simp add: invariant_def)
  ultimately show ?thesis
    by (simp add: AppendEntries_def Let_def)
qed

lemma AppendEntries_old:
  assumes "invariant g" "lookup g key = Some i"
  shows "AppendEntries key es g = Inr (g\<lparr>Entries := (Entries g)[i := Entries g ! i @ es]\<rparr>)"
proof -
  have "i < length (Entries g)"
    using assms by (simp add: invariant_def)
  then show ?thesis
    using assms(2) by (simp add: AppendEntries_def Let_def)
qed

lemma invariant_New: "invariant NewGroupedEntries"
  by (simp add: invariant_def NewGroupedEntries_def)

lemma invariant_AppendEntries:
  assumes "invariant g" "AppendEntries key es g = Inr g'"
  shows "invariant g'"
proof (cases "key \<in> set (Keys g)")
  case False
  then have g': "g' = \<lparr>Keys = Keys g @ [key], Entries = Entries g @ [es],
         lookup = (lookup g)(key \<mapsto> length (Keys g))\<rparr>"
    using AppendEntries_new [OF assms(1) False, of es] assms(2) by simp
  show ?thesis
    using assms(1) False unfolding g' invariant_def
    by (auto simp: nth_append less_Suc_eq)
next
  case True
  then obtain i where i: "lookup g key = Some i"
    using invariant_lookup_Some [OF assms(1)] by blast
  then have g': "g' = g\<lparr>Entries := (Entries g)[i := Entries g ! i @ es]\<rparr>"
    using AppendEntries_old [OF assms(1) i, of es] assms(2) by simp
  show ?thesis
    using assms(1) unfolding g' invariant_def by simp
qed

lemma AppendEntries_total:
  assumes "invariant g"
  shows "\<exists>g'. AppendEntries key es g = Inr g'"
  using AppendEntries_new [OF assms] AppendEntries_old [OF assms] invariant_lookup_Some [OF assms]
  by (cases "key \<in> set (Keys g)") blast+

section \<open>Lookup under the invariant\<close>

lemma Lookup_present:
  assumes "invariant g" "i < length (Keys g)"
  shows "Lookup (Keys g ! i) g = Inr (Entries g ! i, True)"
proof -
  have "lookup g (Keys g ! i) = Some i"
    using assms by (simp add: invariant_def)
  moreover have "i < length (Entries g)"
    using assms by (simp add: invariant_def)
  ultimately show ?thesis
    by (simp add: Lookup_def)
qed

lemma Lookup_absent:
  "invariant g \<Longrightarrow> k \<notin> set (Keys g) \<Longrightarrow> Lookup k g = Inr ([], False)"
  by (simp add: invariant_lookup_None Lookup_def)

section \<open>The loop of EachGroup\<close>

lemma EachGroup_loop_logged:
  "length ks = length ess \<Longrightarrow>
   \<exists>r s' new.
     EachGroup_loop (logged f) ks ess (s, L) = Inr (r, s', L @ new) \<and>
     EachGroup_loop (\<lambda>k es s. Inr (f k es s)) ks ess s = Inr (r, s') \<and>
     map (\<lambda>(k, es, r). (k, es)) new = take (length new) (zip ks ess) \<and>
     (\<forall>c \<in> set (butlast new). snd (snd c) = None) \<and>
     (case r of
        None \<Rightarrow> length new = length ks \<and> (\<forall>c \<in> set new. snd (snd c) = None)
      | Some e \<Rightarrow> new \<noteq> [] \<and> snd (snd (last new)) = Some e)"
proof (induction ks ess arbitrary: s L rule: list_induct2)
  case Nil
  show ?case by simp
next
  case (Cons k ks es ess)
  obtain r0 s1 where f: "f k es s = (r0, s1)"
    by (cases "f k es s")
  show ?case
  proof (cases r0)
    case (Some e)
    have "EachGroup_loop (logged f) (k # ks) (es # ess) (s, L) = Inr (r0, s1, L @ [(k, es, r0)])"
      using f Some by (simp add: logged_def)
    moreover have "EachGroup_loop (\<lambda>k es s. Inr (f k es s)) (k # ks) (es # ess) s = Inr (r0, s1)"
      using f Some by simp
    ultimately show ?thesis
      using Some by (intro exI [of _ r0] exI [of _ s1] exI [of _ "[(k, es, r0)]"]) simp
  next
    case None
    obtain r s' new where
      1: "EachGroup_loop (logged f) ks ess (s1, L @ [(k, es, None)]) =
            Inr (r, s', (L @ [(k, es, None)]) @ new)"
      and 2: "EachGroup_loop (\<lambda>k es s. Inr (f k es s)) ks ess s1 = Inr (r, s')"
      and 3: "map (\<lambda>(k, es, r). (k, es)) new = take (length new) (zip ks ess)"
      and 4: "\<forall>c \<in> set (butlast new). snd (snd c) = None"
      and 5: "case r of
          None \<Rightarrow> length new = length ks \<and> (\<forall>c \<in> set new. snd (snd c) = None)
        | Some e \<Rightarrow> new \<noteq> [] \<and> snd (snd (last new)) = Some e"
      using Cons.IH [of s1 "L @ [(k, es, None)]"] by blast
    let ?new = "(k, es, None) # new"
    have a: "EachGroup_loop (logged f) (k # ks) (es # ess) (s, L) = Inr (r, s', L @ ?new)"
      using f None 1 by (simp add: logged_def)
    have b: "EachGroup_loop (\<lambda>k es s. Inr (f k es s)) (k # ks) (es # ess) s = Inr (r, s')"
      using f None 2 by simp
    have c: "map (\<lambda>(k, es, r). (k, es)) ?new = take (length ?new) (zip (k # ks) (es # ess))"
      using 3 by simp
    have d: "\<forall>c \<in> set (butlast ?new). snd (snd c) = None"
      using 4 by auto
    have e: "case r of
          None \<Rightarrow> length ?new = length (k # ks) \<and> (\<forall>c \<in> set ?new. snd (snd c) = None)
        | Some e \<Rightarrow> ?new \<noteq> [] \<and> snd (snd (last ?new)) = Some e"
      using 5 by (auto split: option.splits)
    show ?thesis
      using a b c d e by blast
  qed
qed

lemma EachGroup_loop_logged_nil:
  "length ks = length ess \<Longrightarrow>
   EachGroup_loop (logged (\<lambda>k es s. (None, s))) ks ess (s, L) =
     Inr (None, s, L @ map (\<lambda>(k, es). (k, es, None)) (zip ks ess))"
  by (induction ks ess arbitrary: L rule: list_induct2) (simp_all add: logged_def)

section \<open>The loop of Filter\<close>

lemma Filter_loop:
  "length ks = length ess \<Longrightarrow> distinct ks \<Longrightarrow> invariant fg \<Longrightarrow> set ks \<inter> set (Keys fg) = {} \<Longrightarrow>
   \<exists>fg'. EachGroup_loop (Filter_visit m) ks ess fg = Inr (None, fg') \<and> invariant fg' \<and>
     Keys fg' = Keys fg @
       map fst (filter (\<lambda>(k, es). es \<noteq> []) (map (\<lambda>(k, es). (k, filter m es)) (zip ks ess))) \<and>
     Entries fg' = Entries fg @
       map snd (filter (\<lambda>(k, es). es \<noteq> []) (map (\<lambda>(k, es). (k, filter m es)) (zip ks ess)))"
proof (induction ks ess arbitrary: fg rule: list_induct2)
  case Nil
  then show ?case by simp
next
  case (Cons k ks es ess)
  show ?case
  proof (cases "filter m es = []")
    case True
    obtain fg' where "EachGroup_loop (Filter_visit m) ks ess fg = Inr (None, fg')"
      "invariant fg'"
      "Keys fg' = Keys fg @
         map fst (filter (\<lambda>(k, es). es \<noteq> []) (map (\<lambda>(k, es). (k, filter m es)) (zip ks ess)))"
      "Entries fg' = Entries fg @
         map snd (filter (\<lambda>(k, es). es \<noteq> []) (map (\<lambda>(k, es). (k, filter m es)) (zip ks ess)))"
      using Cons.IH [of fg] Cons.prems by auto
    moreover have "Filter_visit m k es fg = Inr (None, fg)"
      using True by (simp add: Filter_visit_def Filter_Entries_def)
    ultimately show ?thesis
      using True by (intro exI [of _ fg']) simp
  next
    case False
    have knew: "k \<notin> set (Keys fg)"
      using Cons.prems by auto
    define fg1 where "fg1 = \<lparr>Keys = Keys fg @ [k], Entries = Entries fg @ [filter m es],
         lookup = (lookup fg)(k \<mapsto> length (Keys fg))\<rparr>"
    have app: "AppendEntries k (filter m es) fg = Inr fg1"
      unfolding fg1_def using Cons.prems(2) knew by (rule AppendEntries_new)
    have inv1: "invariant fg1"
      using Cons.prems(2) app by (rule invariant_AppendEntries)
    have disj: "set ks \<inter> set (Keys fg1) = {}"
      using Cons.prems by (auto simp: fg1_def)
    obtain fg' where "EachGroup_loop (Filter_visit m) ks ess fg1 = Inr (None, fg')"
      "invariant fg'"
      "Keys fg' = Keys fg1 @
         map fst (filter (\<lambda>(k, es). es \<noteq> []) (map (\<lambda>(k, es). (k, filter m es)) (zip ks ess)))"
      "Entries fg' = Entries fg1 @
         map snd (filter (\<lambda>(k, es). es \<noteq> []) (map (\<lambda>(k, es). (k, filter m es)) (zip ks ess)))"
      using Cons.IH [of fg1] Cons.prems inv1 disj by auto
    moreover have "Filter_visit m k es fg = Inr (None, fg1)"
      using False app by (simp add: Filter_visit_def Filter_Entries_def)
    ultimately show ?thesis
      using False by (intro exI [of _ fg']) (simp add: fg1_def)
  qed
qed

lemma Filter_result:
  assumes "length (Keys g) = length (Entries g)" "distinct (Keys g)"
  shows "\<exists>r. Filter m g = Inr (g, r) \<and> invariant r \<and>
      Keys r = map fst (filter (\<lambda>(k, es). es \<noteq> [])
                  (map (\<lambda>(k, es). (k, filter m es)) (zip (Keys g) (Entries g)))) \<and>
      Entries r = map snd (filter (\<lambda>(k, es). es \<noteq> [])
                  (map (\<lambda>(k, es). (k, filter m es)) (zip (Keys g) (Entries g))))"
  using Filter_loop [OF assms invariant_New, of m]
  by (auto simp: Filter_def EachGroup_def NewGroupedEntries_def)

lemma invariant_Filter:
  assumes "invariant g" "Filter m g = Inr (g0, r)"
  shows "invariant r"
proof -
  have "length (Keys g) = length (Entries g)" "distinct (Keys g)"
    using assms(1) by (simp_all add: invariant_def)
  from Filter_result [OF this, of m] show ?thesis
    using assms(2) by auto
qed

section \<open>Anchor selection\<close>

lemma set_collect_firsts:
  "set (collect_firsts m ess acc) = set acc \<union> {c. \<exists>es \<in> set ess. First_Entries m es = Some c}"
  by (induction ess arbitrary: acc) (auto split: option.splits)

lemma First_Entries_None: "First_Entries m es = None \<longleftrightarrow> (\<forall>e \<in> set es. \<not> m e)"
  by (auto simp: First_Entries_def find_None_iff)

lemma collect_firsts_Nil:
  "collect_firsts m ess [] = [] \<longleftrightarrow> (\<forall>es \<in> set ess. \<forall>e \<in> set es. \<not> m e)"
proof -
  have "collect_firsts m ess [] = [] \<longleftrightarrow> set (collect_firsts m ess []) = {}"
    by simp
  also have "\<dots> \<longleftrightarrow> (\<forall>es \<in> set ess. First_Entries m es = None)"
    unfolding set_collect_firsts
    by (auto simp: not_Some_eq [symmetric] simp del: not_Some_eq not_None_eq)
  finally show ?thesis
    by (simp add: First_Entries_None)
qed

lemma first_not_found:
  "(\<forall>es \<in> set (Entries g). \<forall>e \<in> set es. \<not> m e) \<Longrightarrow> first srt m g = Inr None"
  using collect_firsts_Nil [of m "Entries g"] by (simp add: first_def)

lemma sort_contract_irrefl:
  assumes "sort_contract Less srt"
  shows "\<not> Less x x"
proof -
  have m: "mset (srt [x, x]) = mset [x, x]"
    and s: "sorted_wrt (\<lambda>a b. \<not> Less b a) (srt [x, x])"
    using assms by (auto simp: sort_contract_def)
  have "set (srt [x, x]) = {x}"
    using mset_eq_setD [OF m] by simp
  moreover have "length (srt [x, x]) = 2"
    using mset_eq_length [OF m] by simp
  ultimately have "srt [x, x] = [x, x]"
    by (cases "srt [x, x]"; cases "tl (srt [x, x])") auto
  then show ?thesis
    using s by simp
qed

lemma sort_contract_head:
  assumes "sort_contract Less srt" "xs \<noteq> []"
  shows "\<exists>x rest. srt xs = x # rest \<and> x \<in> set xs \<and> (\<forall>c \<in> set xs. \<not> Less c x)"
proof -
  have m: "mset (srt xs) = mset xs" and s: "sorted_wrt (\<lambda>a b. \<not> Less b a) (srt xs)"
    using assms(1) by (auto simp: sort_contract_def)
  have "srt xs \<noteq> []"
    using m assms(2) by auto
  then obtain x rest where xr: "srt xs = x # rest"
    by (cases "srt xs") auto
  have set: "set xs = insert x (set rest)"
    using mset_eq_setD [OF m] xr by simp
  have "\<forall>c \<in> set rest. \<not> Less c x"
    using s xr by simp
  moreover have "\<not> Less x x"
    using assms(1) by (rule sort_contract_irrefl)
  ultimately show ?thesis
    using xr set by auto
qed

lemma first_found:
  assumes "sort_contract Less srt" "\<exists>es \<in> set (Entries g). \<exists>e \<in> set es. m e"
  shows "\<exists>a. first srt m g = Inr (Some a) \<and>
            (\<exists>es \<in> set (Entries g). First_Entries m es = Some a) \<and>
            (\<forall>es \<in> set (Entries g). \<forall>c. First_Entries m es = Some c \<longrightarrow> \<not> Less c a)"
proof -
  let ?firsts = "collect_firsts m (Entries g) []"
  have ne: "?firsts \<noteq> []"
    using assms(2) collect_firsts_Nil [of m "Entries g"] by blast
  obtain x rest where xr: "srt ?firsts = x # rest" and x: "x \<in> set ?firsts"
    and least: "\<forall>c \<in> set ?firsts. \<not> Less c x"
    using sort_contract_head [OF assms(1) ne] by blast
  have "first srt m g = Inr (Some x)"
    using ne xr by (simp add: first_def)
  then show ?thesis
    using x least unfolding set_collect_firsts by auto
qed

lemma sort_contract_sort_key:
  "sort_contract (\<lambda>a b. f a < f b) (sort_key f)"
  for f :: "'a \<Rightarrow> 'b::linorder"
  unfolding sort_contract_def
proof (intro allI conjI)
  fix xs :: "'a list"
  show "mset (sort_key f xs) = mset xs" by simp
  have "sorted (map f (sort_key f xs))" by simp
  then show "sorted_wrt (\<lambda>a b. \<not> f b < f a) (sort_key f xs)"
    by (simp add: sorted_map not_less)
qed

section \<open>The loop of ConstructTimelines\<close>

lemma ConstructTimelines_loop:
  "length ks = length ess \<Longrightarrow>
   EachGroup_loop (ConstructTimelines_visit ctl description firstEntry) ks ess acc =
     Inr (None, acc @ map (\<lambda>(key, entries).
                (ctl entries description firstEntry)\<lparr>Annotation := key\<rparr>) (zip ks ess))"
  by (induction ks ess arbitrary: acc rule: list_induct2)
     (simp_all add: ConstructTimelines_visit_def)

lemma ConstructTimelines_found:
  assumes "length (Keys g) = length (Entries g)" "first srt (Matcher d0) g = Inr (Some a)"
  shows "ConstructTimelines srt ctl (d0 # rest) g =
     Inr (map (\<lambda>(key, entries). (ctl entries (d0 # rest) a)\<lparr>Annotation := key\<rparr>)
            (zip (Keys g) (Entries g)), None)"
  using assms ConstructTimelines_loop [OF assms(1), of ctl "d0 # rest" a "[]"]
  by (simp add: ConstructTimelines_def EachGroup_def)

section \<open>Sequences of calls\<close>

lemma apply_call_eq: "apply_call c g = AppendEntries (call_key c) (call_entries c) g"
  by (cases c) (simp_all add: Append_def)

lemma run_calls_snoc:
  "run_calls (cs @ [c]) g = (case run_calls cs g of Inl p \<Rightarrow> Inl p | Inr g' \<Rightarrow> apply_call c g')"
  by (induction cs arbitrary: g) (auto split: sum.splits)

lemma set_first_seen: "set (first_seen xs) = set xs"
  by (induction xs) auto

lemma distinct_first_seen: "distinct (first_seen xs)"
  by (induction xs) (auto simp: set_first_seen)

lemma first_seen_snoc:
  "first_seen (xs @ [x]) = (if x \<in> set xs then first_seen xs else first_seen xs @ [x])"
  by (induction xs) auto

lemma appended_under_snoc:
  "appended_under k (cs @ [c]) = appended_under k cs @ (if call_key c = k then call_entries c else [])"
  by (simp add: appended_under_def)

lemma appended_under_absent:
  "k \<notin> call_key ` set cs \<Longrightarrow> appended_under k cs = []"
  by (induction cs) (auto simp: appended_under_def)

lemma run_calls_New:
  "\<exists>g. run_calls cs NewGroupedEntries = Inr g \<and> invariant g \<and>
       Keys g = first_seen (map call_key cs) \<and>
       Entries g = map (\<lambda>k. appended_under k cs) (Keys g)"
proof (induction cs rule: rev_induct)
  case Nil
  show ?case by (simp add: invariant_New) (simp add: NewGroupedEntries_def)
next
  case (snoc c cs)
  then obtain g where run: "run_calls cs NewGroupedEntries = Inr g" and inv: "invariant g"
    and keys: "Keys g = first_seen (map call_key cs)"
    and ents: "Entries g = map (\<lambda>k. appended_under k cs) (Keys g)" by blast
  have step: "run_calls (cs @ [c]) NewGroupedEntries = AppendEntries (call_key c) (call_entries c) g"
    using run by (simp add: run_calls_snoc apply_call_eq)
  show ?case
  proof (cases "call_key c \<in> set (Keys g)")
    case False
    let ?g' = "\<lparr>Keys = Keys g @ [call_key c], Entries = Entries g @ [call_entries c],
         lookup = (lookup g)(call_key c \<mapsto> length (Keys g))\<rparr>"
    have app: "AppendEntries (call_key c) (call_entries c) g = Inr ?g'"
      using inv False by (rule AppendEntries_new)
    have inv': "invariant ?g'" using inv app by (rule invariant_AppendEntries)
    have absent: "call_key c \<notin> call_key ` set cs"
      using False keys by (simp add: set_first_seen)
    have k': "Keys ?g' = first_seen (map call_key (cs @ [c]))"
      using absent keys by (simp add: first_seen_snoc)
    have "map (\<lambda>k. appended_under k (cs @ [c])) (Keys g) = map (\<lambda>k. appended_under k cs) (Keys g)"
      using False by (intro map_cong) (auto simp: appended_under_snoc)
    then have e': "Entries ?g' = map (\<lambda>k. appended_under k (cs @ [c])) (Keys ?g')"
      using ents absent by (simp add: appended_under_snoc appended_under_absent)
    show ?thesis using step app inv' k' e' by (intro exI [of _ ?g']) simp
  next
    case True
    then obtain i where look: "lookup g (call_key c) = Some i" and i: "i < length (Keys g)"
      and ki: "Keys g ! i = call_key c"
      using invariant_lookup_Some [OF inv] by blast
    let ?g' = "g\<lparr>Entries := (Entries g)[i := Entries g ! i @ call_entries c]\<rparr>"
    have app: "AppendEntries (call_key c) (call_entries c) g = Inr ?g'"
      using inv look by (rule AppendEntries_old)
    have inv': "invariant ?g'" using inv app by (rule invariant_AppendEntries)
    have present: "call_key c \<in> call_key ` set cs"
      using True keys by (simp add: set_first_seen)
    have k': "Keys ?g' = first_seen (map call_key (cs @ [c]))"
      using present keys by (simp add: first_seen_snoc)
    have dist: "distinct (Keys g)" using inv by (simp add: invariant_def)
    have len: "length (Entries g) = length (Keys g)" using inv by (simp add: invariant_def)
    have e': "Entries ?g' = map (\<lambda>k. appended_under k (cs @ [c])) (Keys ?g')"
    proof (rule nth_equalityI)
      show "length (Entries ?g') = length (map (\<lambda>k. appended_under k (cs @ [c])) (Keys ?g'))"
        using len by simp
    next
      fix j assume "j < length (Entries ?g')"
      then have j: "j < length (Keys g)" using len by simp
      have old: "Entries g ! j = appended_under (Keys g ! j) cs"
        using j by (subst ents) simp
      show "Entries ?g' ! j = map (\<lambda>k. appended_under k (cs @ [c])) (Keys ?g') ! j"
      proof (cases "j = i")
        case True
        then show ?thesis using j len old ki by (simp add: appended_under_snoc)
      next
        case False
        then have "Keys g ! j \<noteq> call_key c"
          using dist i j ki nth_eq_iff_index_eq [of "Keys g" j i] by auto
        then show ?thesis using False j len old by (simp add: appended_under_snoc)
      qed
    qed
    show ?thesis using step app inv' k' e' by (intro exI [of _ ?g']) simp
  qed
qed

section \<open>Grouping a flat sequence\<close>

lemma GroupBy_loop_run_calls:
  "GroupBy_loop getter es g = run_calls (map (\<lambda>e. Call_Append (getter e) e) es) g"
  by (induction es arbitrary: g) (auto split: sum.splits)

lemma appended_under_Append_calls:
  "appended_under k (map (\<lambda>e. Call_Append (getter e) e) es) = filter (\<lambda>e. getter e = k) es"
  by (induction es) (auto simp: appended_under_def)

lemma GroupBy_result:
  "\<exists>g. GroupBy getter es = Inr g \<and> invariant g \<and>
       Keys g = first_seen (map getter es) \<and>
       Entries g = map (\<lambda>k. filter (\<lambda>e. getter e = k) es) (Keys g)"
  using run_calls_New [of "map (\<lambda>e. Call_Append (getter e) e) es"]
  by (simp add: GroupBy_def GroupBy_loop_run_calls appended_under_Append_calls comp_def)

lemma zip_map_same: "zip xs (map f xs) = map (\<lambda>x. (x, f x)) xs"
  by (induction xs) simp_all

lemma reachable_invariant_aux: "reachable g \<Longrightarrow> invariant g"
proof (induction rule: reachable.induct)
  case reachable_New
  show ?case by (rule invariant_New)
next
  case (reachable_Append g key entry g')
  then show ?case
    unfolding Append_def by (blast intro: invariant_AppendEntries)
next
  case (reachable_AppendEntries g key entries g')
  then show ?case
    by (blast intro: invariant_AppendEntries)
next
  case (reachable_Filter g matcher g0 g')
  then show ?case
    by (blast intro: invariant_Filter)
qed

section \<open>The claims\<close>

text \<open>
  C1. Let the sort obey the contract of \<^verbatim>\<open>sort.Sort\<close> for the order \<open>Less\<close> of the entries,
  let the two slices of the map have the same length, and let some entry of some group
  match the \<^verbatim>\<open>Matcher\<close> of \<^verbatim>\<open>description[0]\<close>. Then \<^verbatim>\<open>first\<close> finds an anchor; the anchor
  is the first match of one of the groups; no first match of any group is \<open>Less\<close> than
  it; a first match that is \<open>Less\<close> than every other first match is the anchor, wherever
  its group stands in the map; and \<^verbatim>\<open>ConstructTimelines\<close> builds the timeline of every
  group from this one anchor.
\<close>

theorem ConstructTimelines_anchor_is_earliest_candidate:
  assumes "sort_contract Less srt"
    and "length (Keys g) = length (Entries g)"
    and "\<exists>entries \<in> set (Entries g). \<exists>e \<in> set entries. Matcher d0 e"
  shows "\<exists>anchor.
     first srt (Matcher d0) g = Inr (Some anchor) \<and>
     (\<exists>entries \<in> set (Entries g). First_Entries (Matcher d0) entries = Some anchor) \<and>
     (\<forall>entries \<in> set (Entries g). \<forall>c.
         First_Entries (Matcher d0) entries = Some c \<longrightarrow> \<not> Less c anchor) \<and>
     (\<forall>c0. (\<exists>entries \<in> set (Entries g). First_Entries (Matcher d0) entries = Some c0) \<and>
           (\<forall>entries \<in> set (Entries g). \<forall>c.
               First_Entries (Matcher d0) entries = Some c \<longrightarrow> c \<noteq> c0 \<longrightarrow> Less c0 c)
           \<longrightarrow> anchor = c0) \<and>
     ConstructTimelines srt ctl (d0 # rest) g =
       Inr (map (\<lambda>(key, entries). (ctl entries (d0 # rest) anchor)\<lparr>Annotation := key\<rparr>)
              (zip (Keys g) (Entries g)), None)"
proof -
  obtain a where f: "first srt (Matcher d0) g = Inr (Some a)"
    and cand: "\<exists>entries \<in> set (Entries g). First_Entries (Matcher d0) entries = Some a"
    and least: "\<forall>entries \<in> set (Entries g). \<forall>c.
         First_Entries (Matcher d0) entries = Some c \<longrightarrow> \<not> Less c a"
    using first_found [OF assms(1) assms(3)] by blast
  have uniq: "a = c0"
    if "\<exists>entries \<in> set (Entries g). First_Entries (Matcher d0) entries = Some c0"
      and "\<forall>entries \<in> set (Entries g). \<forall>c.
               First_Entries (Matcher d0) entries = Some c \<longrightarrow> c \<noteq> c0 \<longrightarrow> Less c0 c" for c0
    using that cand least by blast
  have ct: "ConstructTimelines srt ctl (d0 # rest) g =
       Inr (map (\<lambda>(key, entries). (ctl entries (d0 # rest) a)\<lparr>Annotation := key\<rparr>)
              (zip (Keys g) (Entries g)), None)"
    using assms(2) f by (rule ConstructTimelines_found)
  show ?thesis
    using f cand least uniq ct by (intro exI [of _ a]) blast
qed

theorem ConstructTimelines_anchor_is_earliest_candidate_witness:
  "sort_contract (\<lambda>a b :: nat \<times> string. fst a < fst b) (sort_key fst) \<and>
   first (sort_key fst) (\<lambda>e. snd e = ''start'')
     \<lparr>Keys = [''A'', ''B''],
      Entries = [[(5::nat, ''boot''), (7, ''start'')], [(2, ''start''), (3, ''start'')]],
      lookup = [''A'' \<mapsto> 0, ''B'' \<mapsto> 1]\<rparr> = Inr (Some (2, ''start'')) \<and>
   first (sort_key fst) (\<lambda>e. snd e = ''start'')
     \<lparr>Keys = [''B'', ''A''],
      Entries = [[(2::nat, ''start''), (3, ''start'')], [(5, ''boot''), (7, ''start'')]],
      lookup = [''B'' \<mapsto> 0, ''A'' \<mapsto> 1]\<rparr> = Inr (Some (2, ''start'')) \<and>
   ConstructTimelines (sort_key fst)
     (\<lambda>entries description anchor. \<lparr>Annotation = [], \<dots> = (anchor, length entries)\<rparr>)
     [\<lparr>Matcher = \<lambda>e. snd e = ''start''\<rparr>]
     \<lparr>Keys = [''A'', ''B''],
      Entries = [[(5::nat, ''boot''), (7, ''start'')], [(2, ''start''), (3, ''start'')]],
      lookup = [''A'' \<mapsto> 0, ''B'' \<mapsto> 1]\<rparr> =
   Inr ([\<lparr>Annotation = ''A'', \<dots> = ((2, ''start''), 2)\<rparr>,
         \<lparr>Annotation = ''B'', \<dots> = ((2, ''start''), 2)\<rparr>], None)"
proof -
  let ?Less = "\<lambda>a b :: nat \<times> string. fst a < fst b"
  let ?srt = "sort_key fst :: (nat \<times> string) list \<Rightarrow> (nat \<times> string) list"
  let ?d = "\<lparr>Matcher = \<lambda>e :: nat \<times> string. snd e = ''start''\<rparr>"
  let ?ctl = "\<lambda>(entries :: (nat \<times> string) list) (description :: (nat \<times> string) Descriptor list)
      anchor. \<lparr>Annotation = [] :: string, \<dots> = (anchor, length entries)\<rparr>"
  let ?g1 = "\<lparr>Keys = [''A'', ''B''],
      Entries = [[(5::nat, ''boot''), (7, ''start'')], [(2, ''start''), (3, ''start'')]],
      lookup = [''A'' \<mapsto> 0, ''B'' \<mapsto> 1::nat]\<rparr>"
  let ?g2 = "\<lparr>Keys = [''B'', ''A''],
      Entries = [[(2::nat, ''start''), (3, ''start'')], [(5, ''boot''), (7, ''start'')]],
      lookup = [''B'' \<mapsto> 0, ''A'' \<mapsto> 1::nat]\<rparr>"
  have sc: "sort_contract ?Less ?srt"
    by (rule sort_contract_sort_key)
  have l1: "length (Keys ?g1) = length (Entries ?g1)" and l2: "length (Keys ?g2) = length (Entries ?g2)"
    by simp_all
  have m1: "\<exists>entries \<in> set (Entries ?g1). \<exists>e \<in> set entries. Matcher ?d e"
    and m2: "\<exists>entries \<in> set (Entries ?g2). \<exists>e \<in> set entries. Matcher ?d e"
    by simp_all
  have c1: "\<exists>entries \<in> set (Entries ?g1). First_Entries (Matcher ?d) entries = Some (2, ''start'')"
    and c2: "\<exists>entries \<in> set (Entries ?g2). First_Entries (Matcher ?d) entries = Some (2, ''start'')"
    by (simp_all add: First_Entries_def)
  have e1: "\<forall>entries \<in> set (Entries ?g1). \<forall>c.
      First_Entries (Matcher ?d) entries = Some c \<longrightarrow> c \<noteq> (2, ''start'') \<longrightarrow> ?Less (2, ''start'') c"
    and e2: "\<forall>entries \<in> set (Entries ?g2). \<forall>c.
      First_Entries (Matcher ?d) entries = Some c \<longrightarrow> c \<noteq> (2, ''start'') \<longrightarrow> ?Less (2, ''start'') c"
    by (auto simp: First_Entries_def)
  obtain a1 where f1: "first ?srt (Matcher ?d) ?g1 = Inr (Some a1)"
    and u1: "\<forall>c0. (\<exists>entries \<in> set (Entries ?g1). First_Entries (Matcher ?d) entries = Some c0) \<and>
           (\<forall>entries \<in> set (Entries ?g1). \<forall>c.
               First_Entries (Matcher ?d) entries = Some c \<longrightarrow> c \<noteq> c0 \<longrightarrow> ?Less c0 c)
           \<longrightarrow> a1 = c0"
    and t1: "ConstructTimelines ?srt ?ctl (?d # []) ?g1 =
       Inr (map (\<lambda>(key, entries). (?ctl entries (?d # []) a1)\<lparr>Annotation := key\<rparr>)
              (zip (Keys ?g1) (Entries ?g1)), None)"
    using ConstructTimelines_anchor_is_earliest_candidate [OF sc l1 m1, of ?ctl "[]"] by blast
  obtain a2 where f2: "first ?srt (Matcher ?d) ?g2 = Inr (Some a2)"
    and u2: "\<forall>c0. (\<exists>entries \<in> set (Entries ?g2). First_Entries (Matcher ?d) entries = Some c0) \<and>
           (\<forall>entries \<in> set (Entries ?g2). \<forall>c.
               First_Entries (Matcher ?d) entries = Some c \<longrightarrow> c \<noteq> c0 \<longrightarrow> ?Less c0 c)
           \<longrightarrow> a2 = c0"
    using ConstructTimelines_anchor_is_earliest_candidate [OF sc l2 m2, of ?ctl "[]"] by blast
  have a1: "a1 = (2, ''start'')"
    using u1 c1 e1 by blast
  have a2: "a2 = (2, ''start'')"
    using u2 c2 e2 by blast
  show ?thesis
    using sc f1 f2 t1 unfolding a1 a2 by simp
qed

text \<open>
  C2. Filtering a flat sequence and then grouping it is claimed to give the same keys in
  the same order, with the same entries, as grouping it and then filtering the map; the
  comment of \<^verbatim>\<open>Filter\<close> calls the two results identical. On the entries
  \<open>(0, False), (1, True), (0, True)\<close>, grouped by their first component and matched by
  their second, the two results differ: filtering first detects key 1 before key 0,
  while the filtered map keeps key 0, detected first among all the entries, in front of
  key 1.
\<close>

theorem Filter_GroupBy_key_order_differs:
  "GroupBy fst (Filter_Entries snd [(0::nat, False), (1, True), (0, True)]) =
     Inr \<lparr>Keys = [1, 0], Entries = [[(1, True)], [(0, True)]], lookup = [1 \<mapsto> 0, 0 \<mapsto> 1]\<rparr> \<and>
   GroupBy_then_Filter fst snd [(0::nat, False), (1, True), (0, True)] =
     Inr \<lparr>Keys = [0, 1], Entries = [[(0, True)], [(1, True)]], lookup = [0 \<mapsto> 0, 1 \<mapsto> 1]\<rparr>"
  by (simp add: GroupBy_then_Filter_def Filter_def Filter_visit_def EachGroup_def GroupBy_def
      Filter_Entries_def Append_def AppendEntries_def NewGroupedEntries_def)

text \<open>
  C3. When the two slices of the map have the same length and \<^verbatim>\<open>first\<close> finds an anchor,
  \<^verbatim>\<open>ConstructTimelines\<close> returns no error and as many timelines as the map has keys; the
  annotations of the timelines, in order, are the keys of the map, and the timeline at
  position \<open>i\<close> is the one constructed from the entries at position \<open>i\<close>, annotated
  with the key at position \<open>i\<close>.
\<close>

theorem ConstructTimelines_one_timeline_per_group:
  assumes "length (Keys g) = length (Entries g)"
    and "first srt (Matcher d0) g = Inr (Some anchor)"
  shows "\<exists>timelines.
     ConstructTimelines srt ctl (d0 # rest) g = Inr (timelines, None) \<and>
     length timelines = length (Keys g) \<and>
     map Annotation timelines = Keys g \<and>
     (\<forall>i < length (Keys g).
        timelines ! i = (ctl (Entries g ! i) (d0 # rest) anchor)\<lparr>Annotation := Keys g ! i\<rparr>)"
proof -
  let ?tls = "map (\<lambda>(key, entries). (ctl entries (d0 # rest) anchor)\<lparr>Annotation := key\<rparr>)
              (zip (Keys g) (Entries g))"
  have ct: "ConstructTimelines srt ctl (d0 # rest) g = Inr (?tls, None)"
    using assms by (rule ConstructTimelines_found)
  have len: "length ?tls = length (Keys g)"
    using assms(1) by simp
  have ann: "map Annotation ?tls = Keys g"
  proof -
    have "map Annotation ?tls = map fst (zip (Keys g) (Entries g))"
      by (simp add: case_prod_unfold)
    then show ?thesis using assms(1) by simp
  qed
  have nth: "\<forall>i < length (Keys g).
        ?tls ! i = (ctl (Entries g ! i) (d0 # rest) anchor)\<lparr>Annotation := Keys g ! i\<rparr>"
    using assms(1) by simp
  show ?thesis
    using ct len ann nth by blast
qed

theorem ConstructTimelines_one_timeline_per_group_witness:
  "first (sort_key fst) (\<lambda>e. snd e = ''start'')
     \<lparr>Keys = [''A'', ''B'', ''C''],
      Entries = [[(5::nat, ''boot''), (7, ''start'')], [(2, ''start'')], []],
      lookup = [''A'' \<mapsto> 0, ''B'' \<mapsto> 1, ''C'' \<mapsto> 2]\<rparr> = Inr (Some (2, ''start'')) \<and>
   (\<exists>timelines.
      ConstructTimelines (sort_key fst)
        (\<lambda>entries description anchor. \<lparr>Annotation = [], \<dots> = (anchor, entries)\<rparr>)
        [\<lparr>Matcher = \<lambda>e. snd e = ''start''\<rparr>]
        \<lparr>Keys = [''A'', ''B'', ''C''],
         Entries = [[(5::nat, ''boot''), (7, ''start'')], [(2, ''start'')], []],
         lookup = [''A'' \<mapsto> 0, ''B'' \<mapsto> 1, ''C'' \<mapsto> 2]\<rparr> = Inr (timelines, None) \<and>
      length timelines = 3 \<and> map Annotation timelines = [''A'', ''B'', ''C''])"
proof -
  let ?srt = "sort_key fst :: (nat \<times> string) list \<Rightarrow> (nat \<times> string) list"
  let ?d = "\<lparr>Matcher = \<lambda>e :: nat \<times> string. snd e = ''start''\<rparr>"
  let ?ctl = "\<lambda>(entries :: (nat \<times> string) list) (description :: (nat \<times> string) Descriptor list)
      (anchor :: nat \<times> string). \<lparr>Annotation = [] :: string, \<dots> = (anchor, entries)\<rparr>"
  let ?g = "\<lparr>Keys = [''A'', ''B'', ''C''],
      Entries = [[(5::nat, ''boot''), (7, ''start'')], [(2, ''start'')], []],
      lookup = [''A'' \<mapsto> 0, ''B'' \<mapsto> 1, ''C'' \<mapsto> 2::nat]\<rparr>"
  have len: "length (Keys ?g) = length (Entries ?g)"
    by simp
  have f: "first ?srt (Matcher ?d) ?g = Inr (Some (2, ''start''))"
    by (simp add: first_def First_Entries_def)
  obtain timelines where "ConstructTimelines ?srt ?ctl (?d # []) ?g = Inr (timelines, None)"
    "length timelines = length (Keys ?g)" "map Annotation timelines = Keys ?g"
    using ConstructTimelines_one_timeline_per_group [OF len f, of ?ctl "[]"] by blast
  then show ?thesis
    using f by simp
qed

text \<open>
  C4. When no entry of any group matches the \<^verbatim>\<open>Matcher\<close> of \<^verbatim>\<open>description[0]\<close>, which
  includes the map without groups, \<^verbatim>\<open>ConstructTimelines\<close> returns the error made from
  \<^verbatim>\<open>description[0]\<close>, next to the empty \<^verbatim>\<open>Timelines{}\<close> of the Go return statement.
\<close>

theorem ConstructTimelines_anchor_not_found:
  assumes "\<forall>entries \<in> set (Entries g). \<forall>e \<in> set entries. \<not> Matcher d0 e"
  shows "ConstructTimelines srt ctl (d0 # rest) g = Inr ([], Some (AnchorNotFound d0))"
  using first_not_found [OF assms, of srt] by (simp add: ConstructTimelines_def)

theorem ConstructTimelines_anchor_not_found_witness:
  "ConstructTimelines (sort_key fst)
     (\<lambda>entries description anchor. \<lparr>Annotation = [], \<dots> = (anchor, entries)\<rparr>)
     [\<lparr>Matcher = \<lambda>e :: nat \<times> string. snd e = ''start''\<rparr>]
     (NewGroupedEntries :: (string, nat \<times> string) GroupedEntries) =
   Inr ([], Some (AnchorNotFound \<lparr>Matcher = \<lambda>e. snd e = ''start''\<rparr>)) \<and>
   ConstructTimelines (sort_key fst)
     (\<lambda>entries description anchor. \<lparr>Annotation = [], \<dots> = (anchor, entries)\<rparr>)
     [\<lparr>Matcher = \<lambda>e :: nat \<times> string. snd e = ''start''\<rparr>]
     \<lparr>Keys = [''A'', ''B''], Entries = [[(5, ''boot''), (7, ''stop'')], []],
      lookup = [''A'' \<mapsto> 0, ''B'' \<mapsto> 1]\<rparr> =
   Inr ([], Some (AnchorNotFound \<lparr>Matcher = \<lambda>e. snd e = ''start''\<rparr>))"
proof -
  let ?d = "\<lparr>Matcher = \<lambda>e :: nat \<times> string. snd e = ''start''\<rparr>"
  let ?g = "\<lparr>Keys = [''A'', ''B''], Entries = [[(5::nat, ''boot''), (7, ''stop'')], []],
      lookup = [''A'' \<mapsto> 0, ''B'' \<mapsto> 1::nat]\<rparr>"
  have 0: "\<forall>entries \<in> set (Entries (NewGroupedEntries :: (string, nat \<times> string) GroupedEntries)).
      \<forall>e \<in> set entries. \<not> Matcher ?d e"
    by (simp add: NewGroupedEntries_def)
  have 1: "\<forall>entries \<in> set (Entries ?g). \<forall>e \<in> set entries. \<not> Matcher ?d e"
    by simp
  show ?thesis
    by (intro conjI ConstructTimelines_anchor_not_found 0 1)
qed

text \<open>
  C5. A write that the sink rejects is claimed to end the dump and to be returned to the
  caller. On a map with the groups \<open>A\<close> and \<open>B\<close> and a sink that rejects every write,
  \<^verbatim>\<open>WriteLagerFormatTo\<close> returns \<^verbatim>\<open>nil\<close>, and after the rejected write of the key line
  of \<open>A\<close> it still attempts to write the first entry of that group.
\<close>

theorem WriteLagerFormatTo_drops_write_error:
  "WriteLagerFormatTo id rejecting_write (write_lines rejecting_write)
     \<lparr>Keys = [''A'', ''B''], Entries = [[''e1'', ''e2''], [''e3'']],
      lookup = [''A'' \<mapsto> 0, ''B'' \<mapsto> 1]\<rparr> []
   = Inr (None, [''A'' @ [CHR 0x0A], ''e1''])"
  by (simp add: WriteLagerFormatTo_def WriteLagerFormatTo_visit_def EachGroup_def
      rejecting_write_def)

text \<open>
  C6. Every sequence of \<^verbatim>\<open>Append\<close> and \<^verbatim>\<open>AppendEntries\<close> calls on a new map runs without a
  panic. Afterwards \<^verbatim>\<open>Keys\<close> lists the keys of the calls in the order of their first
  occurrence, each once; the group stored for a key is the concatenation, in call
  order, of the entries appended under it; and \<^verbatim>\<open>Lookup\<close> returns that group and
  \<^verbatim>\<open>true\<close> for a key of the calls, the empty slice and \<^verbatim>\<open>false\<close> for any other key.
\<close>

theorem Append_calls_keys_and_entries:
  "\<exists>g. run_calls cs NewGroupedEntries = Inr g \<and>
        Keys g = first_seen (map call_key cs) \<and>
        distinct (Keys g) \<and> set (Keys g) = call_key ` set cs \<and>
        Entries g = map (\<lambda>key. appended_under key cs) (Keys g) \<and>
        (\<forall>key. Lookup key g = Inr (appended_under key cs, key \<in> call_key ` set cs))"
proof -
  obtain g where run: "run_calls cs NewGroupedEntries = Inr g" and inv: "invariant g"
    and keys: "Keys g = first_seen (map call_key cs)"
    and ents: "Entries g = map (\<lambda>key. appended_under key cs) (Keys g)"
    using run_calls_New [of cs] by blast
  have set: "set (Keys g) = call_key ` set cs"
    using keys by (simp add: set_first_seen)
  have look: "Lookup key g = Inr (appended_under key cs, key \<in> call_key ` set cs)" for key
  proof (cases "key \<in> set (Keys g)")
    case True
    then obtain i where i: "i < length (Keys g)" and ki: "Keys g ! i = key"
      by (auto simp: in_set_conv_nth)
    have "Entries g ! i = appended_under key cs"
      using i ki by (subst ents) simp
    then show ?thesis
      using Lookup_present [OF inv i] ki True set by simp
  next
    case False
    then show ?thesis
      using Lookup_absent [OF inv False] set by (simp add: appended_under_absent)
  qed
  show ?thesis
    using run keys ents set look by (intro exI [of _ g]) (simp add: distinct_first_seen)
qed

theorem Append_calls_keys_and_entries_witness:
  "\<exists>g. run_calls [Call_Append (1::nat) (10::nat), Call_AppendEntries 2 [20, 21],
                   Call_Append 1 11, Call_AppendEntries 3 [], Call_Append 2 20]
          NewGroupedEntries = Inr g \<and>
        Keys g = [1, 2, 3] \<and> Entries g = [[10, 11], [20, 21, 20], []] \<and>
        Lookup 1 g = Inr ([10, 11], True) \<and> Lookup 4 g = Inr ([], False)"
proof -
  let ?cs = "[Call_Append (1::nat) (10::nat), Call_AppendEntries 2 [20, 21],
              Call_Append 1 11, Call_AppendEntries 3 [], Call_Append 2 20]"
  obtain g where run: "run_calls ?cs NewGroupedEntries = Inr g"
    and keys: "Keys g = first_seen (map call_key ?cs)"
    and ents: "Entries g = map (\<lambda>key. appended_under key ?cs) (Keys g)"
    and look: "\<forall>key. Lookup key g = Inr (appended_under key ?cs, key \<in> call_key ` set ?cs)"
    using Append_calls_keys_and_entries [of ?cs] by blast
  have k: "Keys g = [1, 2, 3]"
    using keys by simp
  have e: "Entries g = [[10, 11], [20, 21, 20], []]"
    using ents by (simp add: k appended_under_def)
  have l1: "Lookup 1 g = Inr ([10, 11], True)"
    using look by (simp add: appended_under_def)
  have l4: "Lookup 4 g = Inr ([], False)"
    using look by (simp add: appended_under_def)
  show ?thesis
    using run k e l1 l4 by blast
qed

text \<open>
  C7. On a map whose slices have the same length and whose keys are distinct,
  \<^verbatim>\<open>Filter\<close> does not panic and leaves the receiver as it was. The groups of the new
  map, in order, are the groups of the receiver with their entries restricted to those
  satisfying the matcher, without the groups that this leaves empty.
\<close>

theorem Filter_keeps_matching_entries_and_drops_empty_groups:
  assumes "length (Keys g) = length (Entries g)" and "distinct (Keys g)"
  shows "\<exists>r. Filter matcher g = Inr (g, r) \<and>
           length (Keys r) = length (Entries r) \<and>
           zip (Keys r) (Entries r) =
             filter (\<lambda>(key, entries). entries \<noteq> [])
               (map (\<lambda>(key, entries). (key, filter matcher entries)) (zip (Keys g) (Entries g)))"
proof -
  obtain r where r: "Filter matcher g = Inr (g, r)"
    and k: "Keys r = map fst (filter (\<lambda>(k, es). es \<noteq> [])
                  (map (\<lambda>(k, es). (k, filter matcher es)) (zip (Keys g) (Entries g))))"
    and e: "Entries r = map snd (filter (\<lambda>(k, es). es \<noteq> [])
                  (map (\<lambda>(k, es). (k, filter matcher es)) (zip (Keys g) (Entries g))))"
    using Filter_result [OF assms, of matcher] by blast
  show ?thesis
    using r by (intro exI [of _ r]) (simp add: k e zip_map_fst_snd)
qed

theorem Filter_keeps_matching_entries_and_drops_empty_groups_witness:
  "\<exists>r. Filter (\<lambda>e. 10 < e)
     \<lparr>Keys = [''a'', ''b'', ''c''], Entries = [[5, 11, 7, 12], [1, 2], [30::nat]],
      lookup = [''a'' \<mapsto> 0, ''b'' \<mapsto> 1, ''c'' \<mapsto> 2]\<rparr> =
     Inr (\<lparr>Keys = [''a'', ''b'', ''c''], Entries = [[5, 11, 7, 12], [1, 2], [30]],
            lookup = [''a'' \<mapsto> 0, ''b'' \<mapsto> 1, ''c'' \<mapsto> 2]\<rparr>, r) \<and>
     zip (Keys r) (Entries r) = [(''a'', [11, 12]), (''c'', [30])]"
proof -
  let ?g = "\<lparr>Keys = [''a'', ''b'', ''c''], Entries = [[5, 11, 7, 12], [1, 2], [30::nat]],
      lookup = [''a'' \<mapsto> 0, ''b'' \<mapsto> 1, ''c'' \<mapsto> 2::nat]\<rparr>"
  have len: "length (Keys ?g) = length (Entries ?g)" and dist: "distinct (Keys ?g)"
    by simp_all
  obtain r where "Filter (\<lambda>e. 10 < e) ?g = Inr (?g, r)"
    "zip (Keys r) (Entries r) =
       filter (\<lambda>(key, entries). entries \<noteq> [])
         (map (\<lambda>(key, entries). (key, filter (\<lambda>e. 10 < e) entries)) (zip (Keys ?g) (Entries ?g)))"
    using Filter_keeps_matching_entries_and_drops_empty_groups [OF len dist, of "\<lambda>e. 10 < e"]
    by blast
  then show ?thesis
    by (intro exI [of _ r]) simp
qed

text \<open>
  C8. On a map whose slices have the same length, \<^verbatim>\<open>EachGroup\<close> with a visitor that does
  not panic returns the same error and state whether or not the visitor is logged. The
  log shows the invocations: they are the groups of the map in order, from the first
  one on, each once; every invocation but the last returned \<^verbatim>\<open>nil\<close>; when \<^verbatim>\<open>EachGroup\<close>
  returns \<^verbatim>\<open>nil\<close> all the groups were visited and every invocation returned \<^verbatim>\<open>nil\<close>,
  and when it returns an error, that error is what the last invocation returned.
\<close>

theorem EachGroup_visits_in_order_until_error:
  assumes "length (Keys g) = length (Entries g)"
  shows "\<exists>r s' log.
     EachGroup (logged f) g (s, []) = Inr (r, s', log) \<and>
     EachGroup (\<lambda>key entries s. Inr (f key entries s)) g s = Inr (r, s') \<and>
     map (\<lambda>(key, entries, err). (key, entries)) log =
       take (length log) (zip (Keys g) (Entries g)) \<and>
     (\<forall>c \<in> set (butlast log). snd (snd c) = None) \<and>
     (case r of
        None \<Rightarrow> length log = length (Keys g) \<and> (\<forall>c \<in> set log. snd (snd c) = None)
      | Some e \<Rightarrow> log \<noteq> [] \<and> snd (snd (last log)) = Some e)"
  using EachGroup_loop_logged [OF assms, of f s "[]"] by (simp add: EachGroup_def)

theorem EachGroup_visits_in_order_until_error_witness:
  "\<exists>r s' log.
     EachGroup (logged (\<lambda>key entries n. (if key = ''b'' then Some ''stop'' else None, Suc n)))
       \<lparr>Keys = [''a'', ''b'', ''c''], Entries = [[1::nat], [], [2, 3]],
        lookup = [''a'' \<mapsto> 0, ''b'' \<mapsto> 1, ''c'' \<mapsto> 2]\<rparr> (0::nat, []) = Inr (r, s', log) \<and>
     r = Some ''stop'' \<and> s' = 2 \<and> log = [(''a'', [1], None), (''b'', [], Some ''stop'')] \<and>
     EachGroup (\<lambda>key entries n. Inr (if key = ''b'' then Some ''stop'' else None, Suc n))
       \<lparr>Keys = [''a'', ''b'', ''c''], Entries = [[1::nat], [], [2, 3]],
        lookup = [''a'' \<mapsto> 0, ''b'' \<mapsto> 1, ''c'' \<mapsto> 2]\<rparr> (0::nat) = Inr (r, s')"
proof -
  let ?g = "\<lparr>Keys = [''a'', ''b'', ''c''], Entries = [[1::nat], [], [2, 3]],
        lookup = [''a'' \<mapsto> 0, ''b'' \<mapsto> 1, ''c'' \<mapsto> 2::nat]\<rparr>"
  let ?f = "\<lambda>(key :: string) (entries :: nat list) (n :: nat).
              (if key = ''b'' then Some ''stop'' else None, Suc n)"
  have len: "length (Keys ?g) = length (Entries ?g)"
    by simp
  obtain r s' log where 1: "EachGroup (logged ?f) ?g (0, []) = Inr (r, s', log)"
    and 2: "EachGroup (\<lambda>key entries s. Inr (?f key entries s)) ?g 0 = Inr (r, s')"
    using EachGroup_visits_in_order_until_error [OF len, of ?f 0] by blast
  have "EachGroup (logged ?f) ?g (0, []) =
      Inr (Some ''stop'', 2, [(''a'', [1], None), (''b'', [], Some ''stop'')])"
    by (simp add: EachGroup_def logged_def)
  with 1 have "Inr (r, s', log) =
      (Inr (Some ''stop'', 2, [(''a'', [1], None), (''b'', [], Some ''stop'')])
        :: panic + string option \<times> nat \<times> (string \<times> nat list \<times> string option) list)"
    by (rule trans [OF sym])
  then have "r = Some ''stop'' \<and> s' = 2 \<and> log = [(''a'', [1], None), (''b'', [], Some ''stop'')]"
    by (simp only: sum.inject prod.inject)
  then show ?thesis
    using 1 2 by blast
qed

text \<open>
  C9. Every map built from \<^verbatim>\<open>NewGroupedEntries\<close> by \<^verbatim>\<open>Append\<close>, \<^verbatim>\<open>AppendEntries\<close> and
  \<^verbatim>\<open>Filter\<close> satisfies the structural invariant: \<^verbatim>\<open>Keys\<close> and \<^verbatim>\<open>Entries\<close> have the same
  length, no key occurs twice, \<^verbatim>\<open>lookup\<close> maps the key at every position to that
  position and holds no other key. On such a map none of the three operations panics.
\<close>

theorem reachable_satisfies_invariant:
  assumes "reachable g"
  shows "length (Keys g) = length (Entries g) \<and> distinct (Keys g) \<and>
         (\<forall>i < length (Keys g). lookup g (Keys g ! i) = Some i) \<and>
         dom (lookup g) = set (Keys g) \<and>
         invariant g \<and>
         (\<forall>key entries. \<exists>g'. AppendEntries key entries g = Inr g') \<and>
         (\<forall>key entry. \<exists>g'. Append key entry g = Inr g') \<and>
         (\<forall>matcher. \<exists>g'. Filter matcher g = Inr (g, g'))"
proof -
  have inv: "invariant g"
    using assms by (rule reachable_invariant_aux)
  have len: "length (Keys g) = length (Entries g)" and dist: "distinct (Keys g)"
    using inv by (simp_all add: invariant_def)
  have pos: "\<forall>i < length (Keys g). lookup g (Keys g ! i) = Some i"
    using inv by (simp add: invariant_def)
  have dom: "dom (lookup g) = set (Keys g)"
    using inv unfolding invariant_def by (auto simp: in_set_conv_nth)
  have app: "\<forall>key entries. \<exists>g'. AppendEntries key entries g = Inr g'"
    using AppendEntries_total [OF inv] by blast
  then have app1: "\<forall>key entry. \<exists>g'. Append key entry g = Inr g'"
    by (simp add: Append_def)
  have flt: "\<forall>matcher. \<exists>g'. Filter matcher g = Inr (g, g')"
    using Filter_result [OF len dist] by blast
  show ?thesis
    using inv len dist pos dom app app1 flt by blast
qed

theorem reachable_satisfies_invariant_witness:
  "reachable \<lparr>Keys = [''a'', ''b''], Entries = [[1::nat, 3], [2]],
             lookup = [''a'' \<mapsto> 0, ''b'' \<mapsto> 1]\<rparr> \<and>
   invariant \<lparr>Keys = [''a'', ''b''], Entries = [[1::nat, 3], [2]],
             lookup = [''a'' \<mapsto> 0, ''b'' \<mapsto> 1]\<rparr>"
proof -
  let ?g1 = "\<lparr>Keys = [''a''], Entries = [[1::nat]], lookup = [''a'' \<mapsto> 0::nat]\<rparr>"
  let ?g2 = "\<lparr>Keys = [''a'', ''b''], Entries = [[1::nat], [2]],
             lookup = [''a'' \<mapsto> 0, ''b'' \<mapsto> 1::nat]\<rparr>"
  let ?g3 = "\<lparr>Keys = [''a'', ''b''], Entries = [[1::nat, 3], [2]],
             lookup = [''a'' \<mapsto> 0, ''b'' \<mapsto> 1::nat]\<rparr>"
  have "Append ''a'' (1::nat) NewGroupedEntries = Inr ?g1"
    by (simp add: Append_def AppendEntries_def NewGroupedEntries_def)
  then have r1: "reachable ?g1"
    using reachable_New by (rule reachable_Append [rotated])
  have "AppendEntries ''b'' [2] ?g1 = Inr ?g2"
    by (simp add: AppendEntries_def)
  then have r2: "reachable ?g2"
    using r1 by (rule reachable_AppendEntries [rotated])
  have "Append ''a'' 3 ?g2 = Inr ?g3"
    by (simp add: Append_def AppendEntries_def)
  then have r3: "reachable ?g3"
    using r2 by (rule reachable_Append [rotated])
  show ?thesis
    using r3 reachable_satisfies_invariant [OF r3] by blast
qed

text \<open>
  C10. On a map that satisfies the invariant, \<^verbatim>\<open>AppendEntries\<close> with a key that is not
  in the map and no entries adds the key at the end of \<^verbatim>\<open>Keys\<close>; \<^verbatim>\<open>Lookup\<close> then finds
  the key with an empty group, and \<^verbatim>\<open>EachGroup\<close> visits the groups of the map and then
  the new key with its empty group. \<^verbatim>\<open>Filter\<close> on the new map returns a map without
  that key and without any empty group.
\<close>

theorem AppendEntries_empty_registers_key:
  assumes "invariant g" and "key \<notin> set (Keys g)"
  shows "\<exists>g'. AppendEntries key [] g = Inr g' \<and>
     Keys g' = Keys g @ [key] \<and>
     Lookup key g' = Inr ([], True) \<and>
     EachGroup (logged (\<lambda>k es s. (None, s))) g' (s, []) =
       Inr (None, s, map (\<lambda>(k, es). (k, es, None)) (zip (Keys g) (Entries g)) @ [(key, [], None)]) \<and>
     (\<forall>matcher. \<exists>r. Filter matcher g' = Inr (g', r) \<and> key \<notin> set (Keys r) \<and> [] \<notin> set (Entries r))"
proof -
  let ?g' = "\<lparr>Keys = Keys g @ [key], Entries = Entries g @ [[]],
         lookup = (lookup g)(key \<mapsto> length (Keys g))\<rparr>"
  have app: "AppendEntries key [] g = Inr ?g'"
    using assms by (rule AppendEntries_new)
  have inv': "invariant ?g'"
    using assms(1) app by (rule invariant_AppendEntries)
  have len: "length (Keys g) = length (Entries g)" and dist: "distinct (Keys g)"
    using assms(1) by (simp_all add: invariant_def)
  have look: "Lookup key ?g' = Inr ([], True)"
    using len by (simp add: Lookup_def)
  have each: "EachGroup (logged (\<lambda>k es s. (None, s))) ?g' (s, []) =
       Inr (None, s, map (\<lambda>(k, es). (k, es, None)) (zip (Keys g) (Entries g)) @ [(key, [], None)])"
    using EachGroup_loop_logged_nil [of "Keys ?g'" "Entries ?g'" s "[]"] len
    by (simp add: EachGroup_def)
  have flt: "\<exists>r. Filter matcher ?g' = Inr (?g', r) \<and> key \<notin> set (Keys r) \<and> [] \<notin> set (Entries r)"
    for matcher
  proof -
    have len': "length (Keys ?g') = length (Entries ?g')" and dist': "distinct (Keys ?g')"
      using inv' by (simp_all add: invariant_def)
    obtain r where r: "Filter matcher ?g' = Inr (?g', r)"
      and k: "Keys r = map fst (filter (\<lambda>(k, es). es \<noteq> [])
                  (map (\<lambda>(k, es). (k, filter matcher es)) (zip (Keys ?g') (Entries ?g'))))"
      and e: "Entries r = map snd (filter (\<lambda>(k, es). es \<noteq> [])
                  (map (\<lambda>(k, es). (k, filter matcher es)) (zip (Keys ?g') (Entries ?g'))))"
      using Filter_result [OF len' dist', of matcher] by blast
    have "key \<notin> fst ` set (zip (Keys g) (Entries g))"
      using assms(2) by (auto dest: set_zip_leftD)
    then have "key \<notin> set (Keys r)"
      unfolding k using len by (auto simp: image_iff)
    moreover have "[] \<notin> set (Entries r)"
      unfolding e by auto
    ultimately show ?thesis
      using r by blast
  qed
  show ?thesis
    using app look each flt by (intro exI [of _ ?g']) simp
qed

theorem AppendEntries_empty_registers_key_witness:
  "invariant \<lparr>Keys = [''a''], Entries = [[1::nat]], lookup = [''a'' \<mapsto> 0]\<rparr> \<and>
   ''b'' \<notin> set (Keys \<lparr>Keys = [''a''], Entries = [[1::nat]], lookup = [''a'' \<mapsto> 0]\<rparr>) \<and>
   (\<exists>g'. AppendEntries ''b'' [] \<lparr>Keys = [''a''], Entries = [[1::nat]], lookup = [''a'' \<mapsto> 0]\<rparr> = Inr g' \<and>
      Keys g' = [''a'', ''b''] \<and> Entries g' = [[1], []] \<and>
      Lookup ''b'' g' = Inr ([], True) \<and>
      EachGroup (logged (\<lambda>k es s. (None :: unit option, s))) g' ((), []) =
        Inr (None, (), [(''a'', [1], None), (''b'', [], None)]))"
proof -
  let ?g = "\<lparr>Keys = [''a''], Entries = [[1::nat]], lookup = [''a'' \<mapsto> 0::nat]\<rparr>"
  have inv: "invariant ?g"
    by (auto simp: invariant_def)
  have new: "''b'' \<notin> set (Keys ?g)"
    by simp
  obtain g' where app: "AppendEntries ''b'' [] ?g = Inr g'"
    and k: "Keys g' = Keys ?g @ [''b'']"
    and l: "Lookup ''b'' g' = Inr ([], True)"
    and e: "EachGroup (logged (\<lambda>k es s. (None :: unit option, s))) g' ((), []) =
       Inr (None, (), map (\<lambda>(k, es). (k, es, None)) (zip (Keys ?g) (Entries ?g)) @ [(''b'', [], None)])"
    using AppendEntries_empty_registers_key [OF inv new, of "()"] by blast
  have "Entries g' = [[1], []]"
    using app by (auto simp: AppendEntries_def)
  then show ?thesis
    using inv app k l e by simp
qed

section \<open>Further properties\<close>

text \<open>
  X1. Filtering and grouping in either order give the same groups up to their order: both
  maps have distinct keys, the same pairs of a key and its entries, and \<^verbatim>\<open>Lookup\<close>
  returns the same result on both for every key.
\<close>

theorem Filter_GroupBy_same_groups:
  "\<exists>a b. GroupBy getter (Filter_Entries matcher entries) = Inr a \<and>
         GroupBy_then_Filter getter matcher entries = Inr b \<and>
         distinct (Keys a) \<and> distinct (Keys b) \<and>
         length (Keys a) = length (Entries a) \<and> length (Keys b) = length (Entries b) \<and>
         set (zip (Keys a) (Entries a)) = set (zip (Keys b) (Entries b)) \<and>
         (\<forall>key. Lookup key a = Lookup key b)"
  for getter :: "'e \<Rightarrow> 'k"
proof -
  let ?F = "\<lambda>k. filter (\<lambda>e. getter e = k) (filter matcher entries)"
  let ?G = "\<lambda>k. filter (\<lambda>e. getter e = k) entries"
  obtain a where a: "GroupBy getter (Filter_Entries matcher entries) = Inr a"
    and inva: "invariant a"
    and ka: "Keys a = first_seen (map getter (filter matcher entries))"
    and ea: "Entries a = map ?F (Keys a)"
    using GroupBy_result [of getter "Filter_Entries matcher entries"]
    by (auto simp: Filter_Entries_def)
  obtain g where g: "GroupBy getter entries = Inr g" and invg: "invariant g"
    and kg: "Keys g = first_seen (map getter entries)"
    and eg: "Entries g = map ?G (Keys g)"
    using GroupBy_result [of getter entries] by blast
  have leng: "length (Keys g) = length (Entries g)" and distg: "distinct (Keys g)"
    using invg by (simp_all add: invariant_def)
  obtain b where fb: "Filter matcher g = Inr (g, b)" and invb: "invariant b"
    and kb: "Keys b = map fst (filter (\<lambda>(k, es). es \<noteq> [])
                  (map (\<lambda>(k, es). (k, filter matcher es)) (zip (Keys g) (Entries g))))"
    and eb: "Entries b = map snd (filter (\<lambda>(k, es). es \<noteq> [])
                  (map (\<lambda>(k, es). (k, filter matcher es)) (zip (Keys g) (Entries g))))"
    using Filter_result [OF leng distg, of matcher] by blast
  have b: "GroupBy_then_Filter getter matcher entries = Inr b"
    using g fb by (simp add: GroupBy_then_Filter_def)
  have za: "zip (Keys a) (Entries a) = map (\<lambda>k. (k, ?F k)) (Keys a)"
    by (subst ea) (rule zip_map_same)
  have zg: "zip (Keys g) (Entries g) = map (\<lambda>k. (k, ?G k)) (Keys g)"
    by (subst eg) (rule zip_map_same)
  have zb: "zip (Keys b) (Entries b) =
      filter (\<lambda>(k, es). es \<noteq> []) (map (\<lambda>k. (k, filter matcher (?G k))) (Keys g))"
    unfolding kb eb zg by (simp add: zip_map_fst_snd comp_def)
  have comm: "filter matcher (?G k) = ?F k" for k
    by (induction entries) auto
  have sa: "set (zip (Keys a) (Entries a)) =
      {(k, ?F k) | k. k \<in> getter ` set (filter matcher entries)}"
    by (simp only: za) (auto simp: ka set_first_seen simp del: filter_filter)
  have sb: "set (zip (Keys b) (Entries b)) =
      {(k, ?F k) | k. k \<in> getter ` set entries \<and> ?F k \<noteq> []}"
    by (simp only: zb comm) (auto simp: kg set_first_seen simp del: filter_filter)
  have keys_iff: "k \<in> getter ` set (filter matcher entries) \<longleftrightarrow>
      k \<in> getter ` set entries \<and> ?F k \<noteq> []" for k
    by (auto simp: filter_empty_conv image_iff)
  have same: "set (zip (Keys a) (Entries a)) = set (zip (Keys b) (Entries b))"
    unfolding sa sb using keys_iff by auto
  have lena: "length (Keys a) = length (Entries a)" and dista: "distinct (Keys a)"
    using inva by (simp_all add: invariant_def)
  have lenb: "length (Keys b) = length (Entries b)" and distb: "distinct (Keys b)"
    using invb by (simp_all add: invariant_def)
  have look: "Lookup key h =
      (if key \<in> set (Keys h) then Inr (?F key, True) else Inr ([], False))"
    if "invariant h" and "Entries h = map ?F (Keys h)" for h :: "('k, 'e) GroupedEntries" and key
  proof (cases "key \<in> set (Keys h)")
    case True
    then obtain i where i: "i < length (Keys h)" and ki: "Keys h ! i = key"
      by (auto simp: in_set_conv_nth)
    have "Entries h ! i = ?F key"
      using i ki by (subst that(2)) simp
    then show ?thesis
      using Lookup_present [OF that(1) i] ki True by simp
  next
    case False
    then show ?thesis
      using Lookup_absent [OF that(1) False] by simp
  qed
  let ?X = "filter (\<lambda>(k, es). es \<noteq> []) (map (\<lambda>k. (k, ?F k)) (Keys g))"
  have kb': "Keys b = map fst ?X" and eb': "Entries b = map snd ?X"
    unfolding kb eb zg by (simp_all only: map_map comp_def prod.case comm)
  have ms: "map snd ?X = map (\<lambda>p. ?F (fst p)) ?X"
    by (rule map_cong) auto
  have eb'': "Entries b = map ?F (Keys b)"
    unfolding kb' eb' by (simp only: map_map comp_def ms)
  have sk: "set (Keys a) = set (Keys b)"
  proof -
    have "set (Keys a) = fst ` set (zip (Keys a) (Entries a))"
      by (metis lena map_fst_zip set_map)
    also have "\<dots> = fst ` set (zip (Keys b) (Entries b))"
      by (simp only: same)
    also have "\<dots> = set (Keys b)"
      by (metis lenb map_fst_zip set_map)
    finally show ?thesis .
  qed
  have "Lookup key a = Lookup key b" for key
    unfolding look [OF inva ea] look [OF invb eb''] sk ..
  then show ?thesis
    using a b dista distb lena lenb same by blast
qed

text \<open>
  X2. Whatever the writer and the formatter of the entries return, \<^verbatim>\<open>WriteLagerFormatTo\<close>
  returns \<^verbatim>\<open>nil\<close> unless it panics.
\<close>

theorem WriteLagerFormatTo_returns_nil:
  "(case WriteLagerFormatTo fmt_key write write_entries g w of
      Inl p \<Rightarrow> True
    | Inr (r, w') \<Rightarrow> r = None)"
  by (simp add: WriteLagerFormatTo_def split: sum.splits prod.splits)

end
